theory Spec2Isabelle
  imports Main "HOL-Library.Char_ord"
begin

section \<open>Python primitives used by the notebook\<close>

text \<open>
  The notebook \<^verbatim>\<open>play_char.ipynb\<close> works on a Python \<^verbatim>\<open>str\<close>. A Python string is a
  sequence of code points compared by their ordinal, so the corpus is a list over any
  linearly ordered character type \<open>'c\<close>; the concrete scenario instantiates it with
  \<^typ>\<open>char\<close>. Python integers are unbounded: \<^typ>\<open>int\<close>.
\<close>

datatype error = KeyError

text \<open>
  Bound adjustment of a slice with step 1 on a sequence of length \<open>n\<close>: a negative
  bound counts from the end, and the result is clamped into \<open>0..n\<close>.
\<close>

definition slice_bound :: "nat \<Rightarrow> int \<Rightarrow> nat" where
  "slice_bound n i =
     (if i < 0 then (if i + int n < 0 then 0 else nat (i + int n))
      else if int n < i then n else nat i)"

text \<open>
  \<^verbatim>\<open>xs[start:stop]\<close>; an omitted bound is \<open>None\<close>. The slice is empty when the
  adjusted stop is not beyond the adjusted start; a slice never raises.
\<close>

definition py_slice :: "'a list \<Rightarrow> int option \<Rightarrow> int option \<Rightarrow> 'a list" where
  "py_slice xs start stop =
     (let n = length xs;
          lo = (case start of None \<Rightarrow> 0 | Some i \<Rightarrow> slice_bound n i);
          hi = (case stop of None \<Rightarrow> n | Some j \<Rightarrow> slice_bound n j)
      in take (hi - lo) (drop lo xs))"

text \<open>\<^verbatim>\<open>enumerate(xs)\<close>: the elements paired with the integers from \<open>i\<close> upwards.\<close>

fun enumerate_from :: "int \<Rightarrow> 'a list \<Rightarrow> (int \<times> 'a) list" where
  "enumerate_from i [] = []"
| "enumerate_from i (x # xs) = (i, x) # enumerate_from (i + 1) xs"

text \<open>
  A dict comprehension \<^verbatim>\<open>{k: v for ...}\<close> stores the pairs in order of generation, a
  later pair replacing an earlier one with the same key.
\<close>

definition dict_of :: "('k \<times> 'v) list \<Rightarrow> ('k \<rightharpoonup> 'v)" where
  "dict_of kvs = foldl (\<lambda>m (k, v). m(k \<mapsto> v)) Map.empty kvs"

text \<open>
  \<^verbatim>\<open>[stoi[s] for s in chunk]\<close>: the lookups run from left to right and the first
  missing key raises \<^verbatim>\<open>KeyError\<close>.
\<close>

fun lookup_each :: "('k \<rightharpoonup> 'v) \<Rightarrow> 'k list \<Rightarrow> error + 'v list" where
  "lookup_each m [] = Inr []"
| "lookup_each m (s # ss) =
     (case m s of
        None \<Rightarrow> Inl KeyError
      | Some i \<Rightarrow> (case lookup_each m ss of Inl e \<Rightarrow> Inl e | Inr is \<Rightarrow> Inr (i # is)))"


section \<open>CharDataset\<close>

record 'c CharDataset =
  stoi :: "'c \<rightharpoonup> int"
  itos :: "int \<rightharpoonup> 'c"
  block_size :: int
  vocab_size :: int
  data :: "'c list"

text \<open>
  \<^verbatim>\<open>__init__\<close>: \<^verbatim>\<open>chars = sorted(list(set(data)))\<close> lists the distinct characters of
  the corpus (\<open>remdups\<close>; the order in which a Python set is listed is immaterial, since
  the list is sorted next) and sorts them. The \<^verbatim>\<open>print\<close> of the two sizes is output only
  and is left out.
\<close>

definition CharDataset_init :: "'c::linorder list \<Rightarrow> int \<Rightarrow> 'c CharDataset" where
  "CharDataset_init dat blk =
     (let chars = sort (remdups dat) in
      \<lparr> stoi = dict_of (map (\<lambda>(i, ch). (ch, i)) (enumerate_from 0 chars)),
        itos = dict_of (map (\<lambda>(i, ch). (i, ch)) (enumerate_from 0 chars)),
        block_size = blk,
        vocab_size = int (length chars),
        data = dat \<rparr>)"

text \<open>\<^verbatim>\<open>__len__\<close>: \<^verbatim>\<open>len(self.data) - self.block_size\<close>, on Python integers.\<close>

definition CharDataset_len :: "'c CharDataset \<Rightarrow> int" where
  "CharDataset_len self = int (length (data self)) - block_size self"

text \<open>
  \<^verbatim>\<open>__getitem__\<close>, as a method call on the object: it returns the value of the call
  (the pair \<open>(x, y)\<close>, or the exception raised) together with the object after the call.
  The two tensors of dtype \<^verbatim>\<open>long\<close> are the lists of their entries.
\<close>

definition CharDataset_getitem ::
  "'c CharDataset \<Rightarrow> int \<Rightarrow> (error + int list \<times> int list) \<times> 'c CharDataset" where
  "CharDataset_getitem self idx =
     (let chunk = py_slice (data self) (Some idx) (Some (idx + block_size self + 1)) in
      case lookup_each (stoi self) chunk of
        Inl e \<Rightarrow> (Inl e, self)
      | Inr dix \<Rightarrow>
          (let x = py_slice dix None (Some (- 1));
               y = py_slice dix (Some 1) None
           in (Inr (x, y), self)))"

text \<open>
  Decoding as the notebook does after sampling,
  \<^verbatim>\<open>[train_dataset.itos[int(i)] for i in y]\<close>.
\<close>

definition decode :: "'c CharDataset \<Rightarrow> int list \<Rightarrow> error + 'c list" where
  "decode self toks = lookup_each (itos self) toks"


section \<open>Sampler\<close>

text \<open>
  Modelled from the spec: the function \<^verbatim>\<open>sample\<close> of \<^verbatim>\<open>mingpt.utils\<close>, which the notebook
  calls as \<^verbatim>\<open>sample(model, x, 2000, temperature=1.0, sample=True, top_k=10)\<close>, is not among
  the sources. The specification gives its step: run the forward pass on the current
  sequence, truncated to its last \<open>block_size\<close> tokens if it is longer; from the logits
  at the final position (scaled by the temperature, restricted to the top \<open>k\<close>,
  normalised) draw a token or take the arg-max; append the chosen token; repeat for the
  requested number of tokens, with no early stopping. The forward pass and the draw are
  the parameter \<open>next_token\<close>, which maps the conditioning sequence and the state \<open>g\<close>
  of the random generator to the chosen token and the generator's next state. The
  sequence is one row of the batch.
\<close>

fun sample :: "(int list \<Rightarrow> 'g \<Rightarrow> int \<times> 'g) \<Rightarrow> nat \<Rightarrow> 'g \<Rightarrow> int list \<Rightarrow> nat \<Rightarrow> int list \<times> 'g" where
  "sample next_token blk g x 0 = (x, g)"
| "sample next_token blk g x (Suc steps) =
     (let x_cond = (if length x \<le> blk then x else drop (length x - blk) x);
          (ix, g') = next_token x_cond g
      in sample next_token blk g' (x @ [ix]) steps)"


section \<open>Auxiliary facts\<close>

subsection \<open>Slices\<close>

lemma slice_bound_beyond: "int n \<le> i \<Longrightarrow> slice_bound n i = n"
  by (auto simp add: slice_bound_def)

lemma set_py_slice: "set (py_slice xs a b) \<subseteq> set xs"
  unfolding py_slice_def Let_def
  by (meson set_take_subset set_drop_subset subset_trans)

lemma py_slice_window:
  "0 \<le> a \<Longrightarrow> a \<le> b \<Longrightarrow> b \<le> int (length xs) \<Longrightarrow>
   py_slice xs (Some a) (Some b) = take (nat (b - a)) (drop (nat a) xs)"
  by (simp add: py_slice_def slice_bound_def Let_def nat_diff_distrib)

lemma py_slice_drop_last: "py_slice xs None (Some (- 1)) = butlast xs"
proof (cases "xs = []")
  case True
  then show ?thesis by (simp add: py_slice_def slice_bound_def)
next
  case False
  then have "nat (- 1 + int (length xs)) = length xs - 1" by simp
  with False show ?thesis
    by (simp add: py_slice_def slice_bound_def butlast_conv_take)
qed

lemma py_slice_drop_first: "py_slice xs (Some 1) None = tl xs"
  by (cases xs) (simp_all add: py_slice_def slice_bound_def)

subsection \<open>Dictionaries built from an enumeration\<close>

lemma dict_of_eq: "dict_of kvs = map_of (rev kvs)"
proof -
  have "foldl (\<lambda>m (k, v). m(k \<mapsto> v)) m0 kvs = m0 ++ map_of (rev kvs)" for m0 :: "'a \<rightharpoonup> 'b"
    by (induction kvs arbitrary: m0) (auto simp: map_add_upd_left)
  then show ?thesis by (simp add: dict_of_def)
qed

lemma dict_of_Some_iff:
  "distinct (map fst kvs) \<Longrightarrow> dict_of kvs k = Some v \<longleftrightarrow> (k, v) \<in> set kvs"
  by (simp add: dict_of_eq rev_map [symmetric])

lemma enumerate_from_keys_ge: "(j, x) \<in> set (enumerate_from i xs) \<Longrightarrow> i \<le> j"
proof (induction xs arbitrary: i)
  case Nil
  then show ?case by simp
next
  case (Cons a xs)
  from Cons.prems have "j = i \<or> (j, x) \<in> set (enumerate_from (i + 1) xs)" by auto
  then show ?case
  proof
    assume "j = i" then show ?thesis by simp
  next
    assume "(j, x) \<in> set (enumerate_from (i + 1) xs)"
    then have "i + 1 \<le> j" by (rule Cons.IH)
    then show ?thesis by simp
  qed
qed

lemma distinct_enumerate_keys: "distinct (map fst (enumerate_from i xs))"
proof (induction xs arbitrary: i)
  case Nil
  show ?case by simp
next
  case (Cons a xs)
  have "i \<notin> fst ` set (enumerate_from (i + 1) xs)"
  proof
    assume "i \<in> fst ` set (enumerate_from (i + 1) xs)"
    then obtain x where "(i, x) \<in> set (enumerate_from (i + 1) xs)" by force
    then have "i + 1 \<le> i" by (rule enumerate_from_keys_ge)
    then show False by simp
  qed
  with Cons.IH [of "i + 1"] show ?case by simp
qed

lemma enumerate_from_snd: "map snd (enumerate_from i xs) = xs"
  by (induction xs arbitrary: i) auto

lemma length_enumerate_from: "length (enumerate_from i xs) = length xs"
  by (induction xs arbitrary: i) simp_all

lemma nth_enumerate_from:
  "k < length xs \<Longrightarrow> enumerate_from i xs ! k = (i + int k, xs ! k)"
proof (induction xs arbitrary: i k)
  case Nil
  then show ?case by simp
next
  case (Cons a xs)
  show ?case
  proof (cases k)
    case 0
    then show ?thesis by simp
  next
    case (Suc k')
    with Cons.prems have "k' < length xs" by simp
    then have "enumerate_from (i + 1) xs ! k' = (i + 1 + int k', xs ! k')"
      by (rule Cons.IH)
    with Suc show ?thesis by simp
  qed
qed

lemma in_enumerate_from:
  "(j, x) \<in> set (enumerate_from i xs) \<longleftrightarrow> (\<exists>k<length xs. j = i + int k \<and> x = xs ! k)"
proof
  assume "(j, x) \<in> set (enumerate_from i xs)"
  then obtain k where "k < length (enumerate_from i xs)" "enumerate_from i xs ! k = (j, x)"
    unfolding in_set_conv_nth by blast
  then have "k < length xs" "(i + int k, xs ! k) = (j, x)"
    by (simp_all add: length_enumerate_from nth_enumerate_from)
  then show "\<exists>k<length xs. j = i + int k \<and> x = xs ! k" by blast
next
  assume "\<exists>k<length xs. j = i + int k \<and> x = xs ! k"
  then obtain k where k: "k < length xs" "j = i + int k" "x = xs ! k" by blast
  then have "enumerate_from i xs ! k = (j, x)" by (simp add: nth_enumerate_from)
  moreover from k have "k < length (enumerate_from i xs)" by (simp add: length_enumerate_from)
  ultimately show "(j, x) \<in> set (enumerate_from i xs)"
    unfolding in_set_conv_nth by blast
qed

subsection \<open>The vocabulary of a constructed dataset\<close>

lemma in_swapped_pairs:
  "(c, i) \<in> set (map (\<lambda>(i, ch). (ch, i)) kvs) \<longleftrightarrow> (i, c) \<in> set kvs"
  by (induction kvs) auto

lemma stoi_init_iff:
  fixes dat :: "'c::linorder list"
  shows "stoi (CharDataset_init dat blk) c = Some i \<longleftrightarrow>
         (\<exists>k<length (sort (remdups dat)). i = int k \<and> c = sort (remdups dat) ! k)"
proof -
  let ?chars = "sort (remdups dat)"
  let ?kvs = "map (\<lambda>(i, ch). (ch, i)) (enumerate_from 0 ?chars)"
  have "map fst ?kvs = map snd (enumerate_from 0 ?chars)"
    by (simp add: case_prod_unfold)
  then have "distinct (map fst ?kvs)"
    by (simp only: enumerate_from_snd) simp
  then have "dict_of ?kvs c = Some i \<longleftrightarrow> (c, i) \<in> set ?kvs"
    by (rule dict_of_Some_iff)
  also have "\<dots> \<longleftrightarrow> (i, c) \<in> set (enumerate_from 0 ?chars)"
    by (rule in_swapped_pairs)
  finally show ?thesis
    by (simp add: CharDataset_init_def Let_def in_enumerate_from)
qed

lemma itos_init_iff:
  fixes dat :: "'c::linorder list"
  shows "itos (CharDataset_init dat blk) i = Some c \<longleftrightarrow>
         (\<exists>k<length (sort (remdups dat)). i = int k \<and> c = sort (remdups dat) ! k)"
proof -
  let ?chars = "sort (remdups dat)"
  have "dict_of (enumerate_from 0 ?chars) i = Some c \<longleftrightarrow> (i, c) \<in> set (enumerate_from 0 ?chars)"
    by (rule dict_of_Some_iff) (rule distinct_enumerate_keys)
  then show ?thesis
    by (simp add: CharDataset_init_def Let_def in_enumerate_from)
qed

lemma stoi_itos_init:
  fixes dat :: "'c::linorder list"
  shows "stoi (CharDataset_init dat blk) c = Some i \<longleftrightarrow> itos (CharDataset_init dat blk) i = Some c"
  by (simp only: stoi_init_iff itos_init_iff)

lemma dom_stoi_init:
  fixes dat :: "'c::linorder list"
  shows "dom (stoi (CharDataset_init dat blk)) = set dat"
proof (rule set_eqI)
  fix c
  let ?chars = "sort (remdups dat)"
  have "c \<in> dom (stoi (CharDataset_init dat blk)) \<longleftrightarrow> (\<exists>i. stoi (CharDataset_init dat blk) c = Some i)"
    by (simp add: dom_def)
  also have "\<dots> \<longleftrightarrow> (\<exists>k<length ?chars. c = ?chars ! k)"
    by (simp only: stoi_init_iff) blast
  also have "\<dots> \<longleftrightarrow> c \<in> set ?chars"
    by (simp only: in_set_conv_nth) blast
  finally show "c \<in> dom (stoi (CharDataset_init dat blk)) \<longleftrightarrow> c \<in> set dat"
    by simp
qed

lemma lookup_each_total:
  "set ks \<subseteq> dom m \<Longrightarrow> \<exists>vs. lookup_each m ks = Inr vs \<and> map m ks = map Some vs"
  by (induction ks) (auto split: sum.splits)

lemma getitem_init:
  fixes dat :: "'c::linorder list"
  shows "\<exists>dix. map (stoi (CharDataset_init dat blk)) (py_slice dat (Some idx) (Some (idx + blk + 1))) = map Some dix
           \<and> CharDataset_getitem (CharDataset_init dat blk) idx = (Inr (butlast dix, tl dix), CharDataset_init dat blk)"
proof -
  let ?ds = "CharDataset_init dat blk"
  let ?chunk = "py_slice dat (Some idx) (Some (idx + blk + 1))"
  have "set ?chunk \<subseteq> dom (stoi ?ds)"
    by (simp only: dom_stoi_init set_py_slice)
  then obtain dix where dix: "lookup_each (stoi ?ds) ?chunk = Inr dix" "map (stoi ?ds) ?chunk = map Some dix"
    using lookup_each_total by blast
  have fields: "data ?ds = dat" "block_size ?ds = blk"
    by (simp_all add: CharDataset_init_def Let_def)
  have "CharDataset_getitem ?ds idx = (Inr (butlast dix, tl dix), ?ds)"
    unfolding CharDataset_getitem_def fields Let_def dix
    by (simp add: py_slice_drop_last py_slice_drop_first)
  with dix(2) show ?thesis by blast
qed

lemma int_below_iff: "(\<exists>k<n. i = int k) \<longleftrightarrow> 0 \<le> i \<and> i < int n"
proof
  assume "\<exists>k<n. i = int k"
  then show "0 \<le> i \<and> i < int n" by auto
next
  assume "0 \<le> i \<and> i < int n"
  then have "nat i < n \<and> i = int (nat i)" by linarith
  then show "\<exists>k<n. i = int k" by blast
qed

lemma vocab_size_init:
  fixes dat :: "'c::linorder list"
  shows "vocab_size (CharDataset_init dat blk) = int (card (set dat))"
  by (simp add: CharDataset_init_def Let_def length_remdups_card_conv)


section \<open>The windows of the dataset\<close>

text \<open>
  C1. For every block size \<open>blk \<ge> 0\<close>, every corpus longer than \<open>blk\<close> and every
  offset \<open>i\<close> with \<open>0 \<le> i < length corpus - blk\<close>, \<^verbatim>\<open>__getitem__(i)\<close> returns a pair
  \<open>(x, y)\<close> of integer sequences of length exactly \<open>blk\<close> each, obtained by encoding
  \<^verbatim>\<open>corpus[i : i+blk+1]\<close> with the vocabulary: \<open>x\<close> holds the codes of the characters at
  \<open>i, \<dots>, i+blk-1\<close> and \<open>y\<close> those at \<open>i+1, \<dots>, i+blk\<close>, so that \<open>y[k] = x[k+1]\<close>
  for every \<open>k\<close> in \<open>[0, blk-2]\<close> and, where the position \<open>blk-1\<close> exists, \<open>y[blk-1]\<close> is
  the code of \<^verbatim>\<open>corpus[i+blk]\<close>.
\<close>

theorem getitem_window:
  fixes dat :: "'c::linorder list"
  assumes "0 \<le> blk" and "blk < int (length dat)"
    and "0 \<le> i" and "i < int (length dat) - blk"
  shows "\<exists>x y. fst (CharDataset_getitem (CharDataset_init dat blk) i) = Inr (x, y)
           \<and> int (length x) = blk \<and> int (length y) = blk
           \<and> (\<forall>k<nat blk. stoi (CharDataset_init dat blk) (dat ! (nat i + k)) = Some (x ! k))
           \<and> (\<forall>k<nat blk. stoi (CharDataset_init dat blk) (dat ! (nat i + k + 1)) = Some (y ! k))
           \<and> (\<forall>k. int k \<le> blk - 2 \<longrightarrow> y ! k = x ! (k + 1))
           \<and> (\<forall>k. int k = blk - 1 \<longrightarrow> stoi (CharDataset_init dat blk) (dat ! nat (i + blk)) = Some (y ! k))"
proof -
  let ?ds = "CharDataset_init dat blk"
  let ?chunk = "py_slice dat (Some i) (Some (i + blk + 1))"
  obtain dix where dix: "map (stoi ?ds) ?chunk = map Some dix"
    and res: "CharDataset_getitem ?ds i = (Inr (butlast dix, tl dix), ?ds)"
    using getitem_init [of dat blk i] by blast
  have chunk: "?chunk = take (nat blk + 1) (drop (nat i) dat)"
    using assms by (simp add: py_slice_window nat_add_distrib)
  have len_chunk: "length ?chunk = nat blk + 1"
    using assms unfolding chunk by simp
  have len_dix: "length dix = nat blk + 1"
    using arg_cong [OF dix, of length] len_chunk by simp
  have enc: "stoi ?ds (dat ! (nat i + k)) = Some (dix ! k)" if "k \<le> nat blk" for k
  proof -
    from that have k: "k < length ?chunk" by (simp add: len_chunk)
    then have "map (stoi ?ds) ?chunk ! k = stoi ?ds (?chunk ! k)" by simp
    moreover have "map Some dix ! k = Some (dix ! k)" using that len_dix by simp
    moreover have "?chunk ! k = dat ! (nat i + k)"
      using that assms unfolding chunk by simp
    ultimately show ?thesis using dix by simp
  qed
  have x_nth: "butlast dix ! k = dix ! k" if "k < nat blk" for k
    using that len_dix by (simp add: nth_butlast)
  have y_nth: "tl dix ! k = dix ! (k + 1)" if "k < nat blk" for k
    using that len_dix by (simp add: nth_tl)
  have 1: "int (length (butlast dix)) = blk" "int (length (tl dix)) = blk"
    using len_dix assms by simp_all
  have 2: "\<forall>k<nat blk. stoi ?ds (dat ! (nat i + k)) = Some (butlast dix ! k)"
    using enc x_nth by simp
  have 3: "\<forall>k<nat blk. stoi ?ds (dat ! (nat i + k + 1)) = Some (tl dix ! k)"
  proof (intro allI impI)
    fix k assume k: "k < nat blk"
    then have "stoi ?ds (dat ! (nat i + (k + 1))) = Some (dix ! (k + 1))" by (intro enc) simp
    with k show "stoi ?ds (dat ! (nat i + k + 1)) = Some (tl dix ! k)"
      by (simp add: y_nth add.assoc)
  qed
  have 4: "\<forall>k. int k \<le> blk - 2 \<longrightarrow> tl dix ! k = butlast dix ! (k + 1)"
  proof (intro allI impI)
    fix k assume "int k \<le> blk - 2"
    then have "k < nat blk" "k + 1 < nat blk" by linarith+
    then show "tl dix ! k = butlast dix ! (k + 1)" by (simp add: x_nth y_nth)
  qed
  have 5: "\<forall>k. int k = blk - 1 \<longrightarrow> stoi ?ds (dat ! nat (i + blk)) = Some (tl dix ! k)"
  proof (intro allI impI)
    fix k assume k: "int k = blk - 1"
    then have kb: "k < nat blk" "k + 1 = nat blk" by linarith+
    have "nat (i + blk) = nat i + (k + 1)" using assms kb by linarith
    moreover have "stoi ?ds (dat ! (nat i + (k + 1))) = Some (dix ! (k + 1))"
      using kb by (intro enc) simp
    ultimately show "stoi ?ds (dat ! nat (i + blk)) = Some (tl dix ! k)"
      using kb by (simp add: y_nth)
  qed
  from res 1 2 3 4 5 show ?thesis by (intro exI [of _ "butlast dix"] exI [of _ "tl dix"]) simp
qed

text \<open>The corpus \<open>hello\<close> with block size 4 and offset 0 meets the hypotheses.\<close>

theorem getitem_window_witness:
  "(0::int) \<le> 4 \<and> 4 < int (length ''hello'') \<and> (0::int) \<le> 0 \<and> 0 < int (length ''hello'') - 4
   \<and> (\<exists>x y. fst (CharDataset_getitem (CharDataset_init ''hello'' 4) 0) = Inr (x, y)
          \<and> int (length x) = 4 \<and> int (length y) = 4)"
proof -
  have h: "(0::int) \<le> 4" "4 < int (length ''hello'')" "(0::int) \<le> 0" "0 < int (length ''hello'') - 4"
    by simp_all
  from getitem_window [OF h] have "\<exists>x y. fst (CharDataset_getitem (CharDataset_init ''hello'' 4) 0) = Inr (x, y)
          \<and> int (length x) = 4 \<and> int (length y) = 4" by blast
  with h show ?thesis by blast
qed

text \<open>
  Without the bound \<open>blk \<ge> 0\<close> the statement fails: for the corpus \<open>ab\<close> and block size
  \<open>-1\<close> the offset 0 satisfies \<open>0 \<le> 0 < 2 - (-1)\<close> and the corpus is longer than the block
  size, but the slice \<^verbatim>\<open>data[0:0]\<close> is empty and both sequences have length 0, not \<open>-1\<close>.
\<close>

theorem getitem_window_counterexample:
  "(- 1::int) < int (length ''ab'') \<and> (0::int) \<le> 0 \<and> (0::int) < int (length ''ab'') - (- 1)
   \<and> fst (CharDataset_getitem (CharDataset_init ''ab'' (- 1)) 0) = Inr ([], [])
   \<and> int (length ([]::int list)) \<noteq> - 1"
  by code_simp

text \<open>
  C2. For every corpus and every block size, the number of windows the dataset exposes
  (its \<^verbatim>\<open>__len__\<close>) is the corpus length minus the block size.
\<close>

theorem len_is_length_minus_block_size:
  "CharDataset_len (CharDataset_init dat blk) = int (length dat) - blk"
  by (simp add: CharDataset_len_def CharDataset_init_def Let_def)

text \<open>
  C3. For every corpus the vocabulary is a bijection between the distinct characters of
  the corpus and the integers \<open>0, \<dots>, vocab_size - 1\<close>, where \<open>vocab_size\<close> is the number
  of distinct characters: the keys of \<open>stoi\<close> are the characters of the corpus, the keys
  of \<open>itos\<close> are the integers below \<open>vocab_size\<close>, \<open>itos[stoi[c]] = c\<close> for every character
  \<open>c\<close> of the corpus, and \<open>stoi[itos[x]] = x\<close> for every \<open>x\<close> in \<open>[0, vocab_size)\<close>.
\<close>

theorem vocabulary_bijection:
  fixes dat :: "'c::linorder list"
  shows "vocab_size (CharDataset_init dat blk) = int (card (set dat))
       \<and> dom (stoi (CharDataset_init dat blk)) = set dat
       \<and> dom (itos (CharDataset_init dat blk)) = {0..<vocab_size (CharDataset_init dat blk)}
       \<and> (\<forall>c\<in>set dat. \<exists>i. stoi (CharDataset_init dat blk) c = Some i
              \<and> 0 \<le> i \<and> i < vocab_size (CharDataset_init dat blk)
              \<and> itos (CharDataset_init dat blk) i = Some c)
       \<and> (\<forall>x. 0 \<le> x \<and> x < vocab_size (CharDataset_init dat blk) \<longrightarrow>
              (\<exists>c. itos (CharDataset_init dat blk) x = Some c \<and> c \<in> set dat
                 \<and> stoi (CharDataset_init dat blk) c = Some x))"
proof -
  let ?ds = "CharDataset_init dat blk"
  let ?chars = "sort (remdups dat)"
  have vs: "vocab_size ?ds = int (length ?chars)"
    by (simp add: CharDataset_init_def Let_def)
  have chars: "set ?chars = set dat" by simp
  have A: "vocab_size ?ds = int (card (set dat))" by (rule vocab_size_init)
  have B: "dom (stoi ?ds) = set dat" by (rule dom_stoi_init)
  have C: "dom (itos ?ds) = {0..<vocab_size ?ds}"
  proof (rule set_eqI)
    fix i
    have "i \<in> dom (itos ?ds) \<longleftrightarrow> (\<exists>c. itos ?ds i = Some c)" by (simp add: dom_def)
    also have "\<dots> \<longleftrightarrow> (\<exists>k<length ?chars. i = int k)"
      by (simp only: itos_init_iff) blast
    also have "\<dots> \<longleftrightarrow> 0 \<le> i \<and> i < int (length ?chars)"
      by (rule int_below_iff)
    finally show "i \<in> dom (itos ?ds) \<longleftrightarrow> i \<in> {0..<vocab_size ?ds}"
      by (simp add: vs)
  qed
  have D: "\<forall>c\<in>set dat. \<exists>i. stoi ?ds c = Some i \<and> 0 \<le> i \<and> i < vocab_size ?ds \<and> itos ?ds i = Some c"
  proof
    fix c assume "c \<in> set dat"
    with B obtain i where i: "stoi ?ds c = Some i" by blast
    then have "itos ?ds i = Some c" by (simp only: stoi_itos_init)
    moreover from this have "i \<in> {0..<vocab_size ?ds}" using C by blast
    ultimately show "\<exists>i. stoi ?ds c = Some i \<and> 0 \<le> i \<and> i < vocab_size ?ds \<and> itos ?ds i = Some c"
      using i by simp
  qed
  have E: "\<forall>x. 0 \<le> x \<and> x < vocab_size ?ds \<longrightarrow> (\<exists>c. itos ?ds x = Some c \<and> c \<in> set dat \<and> stoi ?ds c = Some x)"
  proof (intro allI impI)
    fix x assume "0 \<le> x \<and> x < vocab_size ?ds"
    then have "x \<in> dom (itos ?ds)" by (simp add: C)
    then obtain c where c: "itos ?ds x = Some c" by blast
    then have s: "stoi ?ds c = Some x" by (simp only: stoi_itos_init)
    then have "c \<in> dom (stoi ?ds)" by blast
    with B c s show "\<exists>c. itos ?ds x = Some c \<and> c \<in> set dat \<and> stoi ?ds c = Some x" by simp
  qed
  from A B C D E show ?thesis by blast
qed

text \<open>
  In the corpus \<open>hello\<close> the character \<open>l\<close> occurs and 3 is below the vocabulary size.
\<close>

theorem vocabulary_bijection_witness:
  "CHR ''l'' \<in> set ''hello''
   \<and> (\<exists>i. stoi (CharDataset_init ''hello'' 4) CHR ''l'' = Some i
        \<and> itos (CharDataset_init ''hello'' 4) i = Some CHR ''l'')
   \<and> (0::int) \<le> 3 \<and> 3 < vocab_size (CharDataset_init ''hello'' 4)
   \<and> (\<exists>c. itos (CharDataset_init ''hello'' 4) 3 = Some c
        \<and> stoi (CharDataset_init ''hello'' 4) c = Some 3)"
proof -
  note T = vocabulary_bijection [of "''hello''" 4]
  have h1: "CHR ''l'' \<in> set ''hello''" by simp
  have h2: "(0::int) \<le> 3 \<and> 3 < vocab_size (CharDataset_init ''hello'' 4)" by code_simp
  from T h1 have c1: "\<exists>i. stoi (CharDataset_init ''hello'' 4) CHR ''l'' = Some i
        \<and> itos (CharDataset_init ''hello'' 4) i = Some CHR ''l''" by blast
  from T h2 have c2: "\<exists>c. itos (CharDataset_init ''hello'' 4) 3 = Some c
        \<and> stoi (CharDataset_init ''hello'' 4) c = Some 3" by blast
  from h1 h2 c1 c2 show ?thesis by blast
qed

text \<open>
  C5. For every corpus and every index \<open>idx\<close> in \<open>[0, length corpus - block_size)\<close>, the
  vocabulary lookup in \<^verbatim>\<open>__getitem__\<close> does not fail: every character of the slice
  \<^verbatim>\<open>corpus[idx : idx+block_size+1]\<close> is a key of \<open>stoi\<close>, the vocabulary being built from
  the same corpus, so the call does not raise \<^verbatim>\<open>KeyError\<close> and returns a pair.
\<close>

theorem lookup_never_fails:
  fixes dat :: "'c::linorder list"
  assumes "0 \<le> idx" and "idx < int (length dat) - blk"
  shows "set (py_slice dat (Some idx) (Some (idx + blk + 1))) \<subseteq> dom (stoi (CharDataset_init dat blk))
       \<and> fst (CharDataset_getitem (CharDataset_init dat blk) idx) \<noteq> Inl KeyError
       \<and> (\<exists>x y. fst (CharDataset_getitem (CharDataset_init dat blk) idx) = Inr (x, y))"
proof -
  have "set (py_slice dat (Some idx) (Some (idx + blk + 1))) \<subseteq> dom (stoi (CharDataset_init dat blk))"
    by (simp only: dom_stoi_init set_py_slice)
  moreover obtain dix where "CharDataset_getitem (CharDataset_init dat blk) idx
      = (Inr (butlast dix, tl dix), CharDataset_init dat blk)"
    using getitem_init [of dat blk idx] by blast
  ultimately show ?thesis by simp
qed

text \<open>The corpus \<open>hello\<close> with block size 3 has the valid index 1.\<close>

theorem lookup_never_fails_witness:
  "(0::int) \<le> 1 \<and> 1 < int (length ''hello'') - 3
   \<and> fst (CharDataset_getitem (CharDataset_init ''hello'' 3) 1) \<noteq> Inl KeyError"
proof -
  have h: "(0::int) \<le> 1" "1 < int (length ''hello'') - 3" by simp_all
  from lookup_never_fails [OF h] h show ?thesis by blast
qed

text \<open>
  C6. For the corpus \<open>hello\<close> with block size 4 the dataset has length 1, so index 0 is
  its only window; the input of that window decodes to \<open>h, e, l, l\<close> and its target to
  \<open>e, l, l, o\<close>.
\<close>

theorem hello_scenario:
  "CharDataset_len (CharDataset_init ''hello'' 4) = 1
   \<and> fst (CharDataset_getitem (CharDataset_init ''hello'' 4) 0) = Inr ([1, 0, 2, 2], [0, 2, 2, 3])
   \<and> decode (CharDataset_init ''hello'' 4) [1, 0, 2, 2] = Inr ''hell''
   \<and> decode (CharDataset_init ''hello'' 4) [0, 2, 2, 3] = Inr ''ello''"
  by code_simp

text \<open>
  C7. For every prompt and every requested number \<open>n\<close> of tokens, the sampler returns the
  prompt followed by exactly \<open>n\<close> new tokens: the length of the result is the length of
  the prompt plus \<open>n\<close>, whatever the model and the generator choose.
\<close>

theorem sample_length:
  "\<exists>new. fst (sample next_token blk g x n) = x @ new \<and> length new = n
         \<and> length (fst (sample next_token blk g x n)) = length x + n"
proof (induction n arbitrary: g x)
  case 0
  show ?case by simp
next
  case (Suc n)
  let ?x_cond = "if length x \<le> blk then x else drop (length x - blk) x"
  obtain ix g' where step: "next_token ?x_cond g = (ix, g')" by (cases "next_token ?x_cond g")
  then have unfold: "sample next_token blk g x (Suc n) = sample next_token blk g' (x @ [ix]) n"
    by (simp add: Let_def)
  from Suc.IH [of g' "x @ [ix]"] obtain new
    where "fst (sample next_token blk g' (x @ [ix]) n) = (x @ [ix]) @ new" "length new = n"
    by blast
  then have "fst (sample next_token blk g x (Suc n)) = x @ (ix # new) \<and> length (ix # new) = Suc n"
    unfolding unfold by simp
  then show ?case by (intro exI [of _ "ix # new"]) (simp del: sample.simps)
qed

text \<open>
  C8. \<^verbatim>\<open>__getitem__\<close> is a pure lookup: for every dataset and every index the object after
  the call is the object before it, field by field (\<open>data\<close>, \<open>stoi\<close>, \<open>itos\<close>,
  \<open>block_size\<close>, \<open>vocab_size\<close>), and a second call with the same index returns the same
  value as the first.
\<close>

theorem getitem_no_side_effect:
  "snd (CharDataset_getitem self idx) = self
   \<and> data (snd (CharDataset_getitem self idx)) = data self
   \<and> stoi (snd (CharDataset_getitem self idx)) = stoi self
   \<and> itos (snd (CharDataset_getitem self idx)) = itos self
   \<and> block_size (snd (CharDataset_getitem self idx)) = block_size self
   \<and> vocab_size (snd (CharDataset_getitem self idx)) = vocab_size self
   \<and> fst (CharDataset_getitem (snd (CharDataset_getitem self idx)) idx) = fst (CharDataset_getitem self idx)"
proof -
  have "snd (CharDataset_getitem self idx) = self"
    by (simp add: CharDataset_getitem_def Let_def split: sum.splits)
  then show ?thesis by simp
qed

text \<open>
  C9. For every index \<open>idx\<close> with \<open>length corpus - block_size \<le> idx \<le> length corpus - 2\<close>,
  \<^verbatim>\<open>__getitem__(idx)\<close> does not fail: the slice is cut at the end of the corpus (it is
  \<^verbatim>\<open>corpus[idx:]\<close>), and the input and the target returned have the same length, which
  is less than the block size.
\<close>

theorem getitem_past_len:
  fixes dat :: "'c::linorder list"
  assumes "int (length dat) - blk \<le> idx" and "idx \<le> int (length dat) - 2"
  shows "py_slice dat (Some idx) (Some (idx + blk + 1)) = py_slice dat (Some idx) None
       \<and> (\<exists>x y. fst (CharDataset_getitem (CharDataset_init dat blk) idx) = Inr (x, y)
              \<and> length x = length y \<and> int (length x) < blk)"
proof -
  let ?ds = "CharDataset_init dat blk"
  let ?n = "length dat"
  let ?lo = "slice_bound ?n idx"
  let ?chunk = "py_slice dat (Some idx) (Some (idx + blk + 1))"
  have stop: "slice_bound ?n (idx + blk + 1) = ?n"
    using assms by (intro slice_bound_beyond) simp
  have trunc: "?chunk = py_slice dat (Some idx) None"
    by (simp add: py_slice_def Let_def stop)
  have len_chunk: "length ?chunk = ?n - ?lo"
    by (simp add: py_slice_def Let_def stop)
  obtain dix where dix: "map (stoi ?ds) ?chunk = map Some dix"
    and res: "CharDataset_getitem ?ds idx = (Inr (butlast dix, tl dix), ?ds)"
    using getitem_init [of dat blk idx] by blast
  have len_dix: "length dix = ?n - ?lo"
    using arg_cong [OF dix, of length] len_chunk by simp
  have short: "int (?n - ?lo - 1) < blk"
  proof (cases "0 \<le> idx")
    case True
    with assms have "?lo = nat idx" by (simp add: slice_bound_def)
    with True assms show ?thesis by linarith
  next
    case False
    with assms have "int ?n < blk" by simp
    then show ?thesis by linarith
  qed
  have "length (butlast dix) = length (tl dix)" "int (length (butlast dix)) < blk"
    using short by (simp_all add: len_dix)
  with res trunc show ?thesis by simp
qed

text \<open>The corpus \<open>hello\<close> with block size 4 and index 2 meets the hypotheses.\<close>

theorem getitem_past_len_witness:
  "int (length ''hello'') - 4 \<le> 2 \<and> (2::int) \<le> int (length ''hello'') - 2
   \<and> (\<exists>x y. fst (CharDataset_getitem (CharDataset_init ''hello'' 4) 2) = Inr (x, y)
          \<and> length x = length y \<and> int (length x) < 4)"
proof -
  have h: "int (length ''hello'') - 4 \<le> 2" "(2::int) \<le> int (length ''hello'') - 2" by simp_all
  from getitem_past_len [OF h] h show ?thesis by blast
qed

text \<open>
  C10. For every corpus whose length is at most the block size, \<^verbatim>\<open>__len__\<close> returns an
  integer that is not positive, and negative when the corpus is shorter than the block
  size; no index \<open>idx\<close> satisfies \<open>0 \<le> idx < __len__\<close>, so the dataset has no valid window.
\<close>

theorem len_nonpositive:
  fixes dat :: "'c::linorder list"
  assumes "int (length dat) \<le> blk"
  shows "CharDataset_len (CharDataset_init dat blk) \<le> 0
       \<and> (int (length dat) < blk \<longrightarrow> CharDataset_len (CharDataset_init dat blk) < 0)
       \<and> (\<nexists>idx. 0 \<le> idx \<and> idx < CharDataset_len (CharDataset_init dat blk))"
  using assms by (simp add: CharDataset_len_def CharDataset_init_def Let_def)

text \<open>The corpus \<open>ab\<close> is shorter than the block size 5.\<close>

theorem len_nonpositive_witness:
  "int (length ''ab'') \<le> 5 \<and> int (length ''ab'') < 5
   \<and> CharDataset_len (CharDataset_init ''ab'' 5) < 0"
proof -
  have h: "int (length ''ab'') \<le> 5" by simp
  have h': "int (length ''ab'') < 5" by simp
  from len_nonpositive [OF h] h h' show ?thesis by blast
qed

end
